theory Spec2Isabelle
  imports Complex_Main "HOL-Library.Word" "HOL-Library.Multiset"
begin

unbundle bit_operations_syntax

section \<open>findimg: template matching by sum of absolute differences\<close>

text \<open>
  A shallow embedding of \<^verbatim>\<open>main.go\<close> of findimg. Conventions:
  \<^item> Go's \<^verbatim>\<open>uint8\<close>, \<^verbatim>\<open>uint32\<close> and \<^verbatim>\<open>int32\<close> are \<open>8 word\<close> and \<open>32 word\<close>
    (\<open>+\<close> and \<open>-\<close> wrap, \<open>sint\<close> reads an \<^verbatim>\<open>int32\<close>);
  \<^item> Go's \<^verbatim>\<open>int\<close> (64 bits) is \<open>int\<close>: coordinates, sizes and indices of rasters that fit
    in memory stay far below \<open>2 ^ 63\<close>;
  \<^item> \<^verbatim>\<open>float64\<close> is idealised as \<open>real\<close>: rounding is not modelled, and an operation whose
    float64 result is not finite (a division by zero) is the outcome \<open>NonFinite\<close>;
  \<^item> a run-time panic (index or slice out of range, integer division by zero) is \<open>None\<close>
    in the pixel-level functions and \<open>Inl Panic\<close> above them.
\<close>

type_synonym u8 = "8 word"
type_synonym u32 = "32 word"

subsection \<open>Per-channel difference\<close>

text \<open>
  \<^verbatim>\<open>func bitwiseAbsDiff(a, b uint8) uint32\<close>: \<^verbatim>\<open>v := int32(a) - int32(b)\<close>,
  \<^verbatim>\<open>m := v >> (32 - 1)\<close> (arithmetic shift of a signed value),
  \<^verbatim>\<open>return uint32((v + m) ^ m)\<close>.
\<close>

definition bitwiseAbsDiff :: "u8 \<Rightarrow> u8 \<Rightarrow> u32" where
  "bitwiseAbsDiff a b =
     (let v = (ucast a :: 32 word) - (ucast b :: 32 word);
          m = signed_drop_bit (32 - 1) v
      in (v + m) XOR m)"

text \<open>
  \<^verbatim>\<open>func rgbAbsSumSliceBitwise(a, b []uint8) uint32\<close> reads \<^verbatim>\<open>a[0], a[1], a[2]\<close> and
  \<^verbatim>\<open>b[0], b[1], b[2]\<close>; an index beyond the slice panics.
\<close>

definition rgbAbsSumSliceBitwise :: "u8 list \<Rightarrow> u8 list \<Rightarrow> u32 option" where
  "rgbAbsSumSliceBitwise a b =
     (if length a < 3 \<or> length b < 3 then None
      else Some (bitwiseAbsDiff (a ! 0) (b ! 0) + bitwiseAbsDiff (a ! 1) (b ! 1)
                 + bitwiseAbsDiff (a ! 2) (b ! 2)))"


subsection \<open>Points, rectangles and matches\<close>

text \<open>
  \<^verbatim>\<open>image.Point\<close> and \<^verbatim>\<open>image.Rectangle\<close> of Go's standard library: a rectangle has an
  inclusive \<^verbatim>\<open>Min\<close> corner and an exclusive \<^verbatim>\<open>Max\<close> corner (the fields are \<open>Min_p\<close> and
  \<open>Max_p\<close> here). \<^verbatim>\<open>image.Rect\<close> swaps the coordinates of an axis given in the wrong order.
\<close>

record Point =
  X :: int
  Y :: int

record Rectangle =
  Min_p :: Point
  Max_p :: Point

definition Dx :: "Rectangle \<Rightarrow> int" where
  "Dx r = X (Max_p r) - X (Min_p r)"

definition Dy :: "Rectangle \<Rightarrow> int" where
  "Dy r = Y (Max_p r) - Y (Min_p r)"

definition Rect :: "int \<Rightarrow> int \<Rightarrow> int \<Rightarrow> int \<Rightarrow> Rectangle" where
  "Rect x0 y0 x1 y1 =
     (let (xa, xb) = (if x0 > x1 then (x1, x0) else (x0, x1));
          (ya, yb) = (if y0 > y1 then (y1, y0) else (y0, y1))
      in \<lparr>Min_p = \<lparr>X = xa, Y = ya\<rparr>, Max_p = \<lparr>X = xb, Y = yb\<rparr>\<rparr>)"

text \<open>
  \<^verbatim>\<open>type Match struct { Bounds image.Rectangle; Match float64 }\<close>. During a scan the
  \<^verbatim>\<open>Match\<close> field holds \<^verbatim>\<open>float64(sum)\<close> of a \<^verbatim>\<open>uint32\<close> (exact in float64), after
  normalisation the similarity score.
\<close>

record Match =
  Bounds :: Rectangle
  Match :: real

text \<open>The zero value of \<^verbatim>\<open>Match\<close>, which fills a freshly made backing array.\<close>

definition zeroMatch :: Match where
  "zeroMatch = \<lparr>Bounds = \<lparr>Min_p = \<lparr>X = 0, Y = 0\<rparr>, Max_p = \<lparr>X = 0, Y = 0\<rparr>\<rparr>, Match = 0\<rparr>"






subsection \<open>Serialisation of a match\<close>

text \<open>
  The default output of \<^verbatim>\<open>main\<close> is, for every match,
  \<^verbatim>\<open>fmt.Printf("%6f %4d %4d %4d %4d\n", match.Match, match.Bounds.Min.X, match.Bounds.Min.Y,
  match.Bounds.Max.X, match.Bounds.Max.Y)\<close>.
  \<open>fmt_d\<close> is \<^verbatim>\<open>%d\<close>, \<open>fmt_4d\<close> is \<^verbatim>\<open>%4d\<close> (right-justified in at least four columns); the
  rendering of a float64 by \<^verbatim>\<open>%6f\<close> (six digits after the point) is the parameter \<open>fmt_6f\<close>.
\<close>

fun digits10 :: "nat \<Rightarrow> string" where
  "digits10 n = (if n < 10 then [''0123456789'' ! n]
                 else digits10 (n div 10) @ [''0123456789'' ! (n mod 10)])"

definition fmt_d :: "int \<Rightarrow> string" where
  "fmt_d i = (if i < 0 then CHR ''-'' # digits10 (nat (- i)) else digits10 (nat i))"

definition fmt_4d :: "int \<Rightarrow> string" where
  "fmt_4d i = replicate (4 - length (fmt_d i)) CHR '' '' @ fmt_d i"

definition print_match :: "(real \<Rightarrow> string) \<Rightarrow> Match \<Rightarrow> string" where
  "print_match fmt_6f m =
     fmt_6f (Match m) @ '' '' @ fmt_4d (X (Min_p (Bounds m))) @ '' '' @
     fmt_4d (Y (Min_p (Bounds m))) @ '' '' @ fmt_4d (X (Max_p (Bounds m))) @ '' '' @
     fmt_4d (Y (Max_p (Bounds m))) @ [CHR 0x0A]"

text \<open>
  \<^verbatim>\<open>func (m Match) MarshalJSON\<close> marshals the struct
  \<^verbatim>\<open>{Bounds{X, Y, W, H}, Match}\<close> with \<^verbatim>\<open>W: m.Bounds.Dx()\<close> and \<^verbatim>\<open>H: m.Bounds.Dy()\<close>
  under the keys \<^verbatim>\<open>bounds{x, y, w, h}\<close> and \<^verbatim>\<open>match\<close>.
\<close>

record JSON_Bounds =
  json_x :: int
  json_y :: int
  json_w :: int
  json_h :: int

record JSON_Match =
  json_bounds :: JSON_Bounds
  json_match :: real

definition MarshalJSON :: "Match \<Rightarrow> JSON_Match" where
  "MarshalJSON m =
     \<lparr>json_bounds = \<lparr>json_x = X (Min_p (Bounds m)), json_y = Y (Min_p (Bounds m)),
                      json_w = Dx (Bounds m), json_h = Dy (Bounds m)\<rparr>,
      json_match = Match m\<rparr>"

text \<open>
  The line the documentation describes (\<^verbatim>\<open><match> <x> <y> <width> <height>\<close>), in the same
  format.
\<close>

definition spec_print_match :: "(real \<Rightarrow> string) \<Rightarrow> Match \<Rightarrow> string" where
  "spec_print_match fmt_6f m =
     fmt_6f (Match m) @ '' '' @ fmt_4d (X (Min_p (Bounds m))) @ '' '' @
     fmt_4d (Y (Min_p (Bounds m))) @ '' '' @ fmt_4d (Dx (Bounds m)) @ '' '' @
     fmt_4d (Dy (Bounds m)) @ [CHR 0x0A]"

subsection \<open>Rasters and the patch dissimilarity\<close>

text \<open>
  \<^verbatim>\<open>image.RGBA\<close>: the bytes \<^verbatim>\<open>Pix\<close> (four per pixel: R, G, B, A), the \<^verbatim>\<open>Stride\<close> between
  rows and the bounds \<^verbatim>\<open>Rect\<close> (the field is \<open>RGBA_Rect\<close> here). \<^verbatim>\<open>PixOffset(x, y)\<close> is
  \<^verbatim>\<open>(y-Rect.Min.Y)*Stride + (x-Rect.Min.X)*4\<close>. The capacity of \<^verbatim>\<open>Pix\<close> is taken to be its
  length, as \<^verbatim>\<open>image.NewRGBA\<close> makes it.
\<close>

record RGBA =
  Pix :: "u8 list"
  Stride :: int
  RGBA_Rect :: Rectangle

definition PixOffset :: "RGBA \<Rightarrow> int \<Rightarrow> int \<Rightarrow> int" where
  "PixOffset p x y =
     (y - Y (Min_p (RGBA_Rect p))) * Stride p + (x - X (Min_p (RGBA_Rect p))) * 4"

text \<open>The slice expression \<^verbatim>\<open>pix[i:i+3:i+3]\<close>, which panics unless \<open>0 \<le> i\<close> and \<open>i + 3 \<le> cap\<close>.\<close>

definition slice3 :: "u8 list \<Rightarrow> int \<Rightarrow> u8 list option" where
  "slice3 pix i =
     (if 0 \<le> i \<and> i + 3 \<le> int (length pix) then Some (take 3 (drop (nat i) pix)) else None)"

text \<open>A \<^verbatim>\<open>for\<close> loop over the values \<open>xs\<close> whose body can panic.\<close>

fun fold_opt :: "('a \<Rightarrow> 's \<Rightarrow> 's option) \<Rightarrow> 'a list \<Rightarrow> 's \<Rightarrow> 's option" where
  "fold_opt f [] s = Some s"
| "fold_opt f (x # xs) s = (case f x s of None \<Rightarrow> None | Some s' \<Rightarrow> fold_opt f xs s')"

text \<open>
  \<^verbatim>\<open>func sumOfAbsDiffRGBA(img *image.RGBA, x int, y int, subimg *image.RGBA) uint32\<close>:
  the loops \<^verbatim>\<open>for ny := 0; ny < h; ny++\<close> and \<^verbatim>\<open>for nx := 0; nx < w; nx++\<close> add
  \<^verbatim>\<open>rgbAbsSumSliceBitwise(ipix[i:i+3:i+3], spix[j:j+3:j+3])\<close> to the \<^verbatim>\<open>uint32\<close> \<open>sum\<close> (written \<open>sm\<close> below).
\<close>

definition sumOfAbsDiffRGBA :: "RGBA \<Rightarrow> int \<Rightarrow> int \<Rightarrow> RGBA \<Rightarrow> u32 option" where
  "sumOfAbsDiffRGBA img x y subimg =
     (let b = RGBA_Rect subimg; w = Dx b; h = Dy b;
          ipix = Pix img; spix = Pix subimg
      in fold_opt (\<lambda>ny. fold_opt (\<lambda>nx sm.
             let i = PixOffset img (x + nx) (y + ny);
                 j = PixOffset subimg (X (Min_p b) + nx) (Y (Min_p b) + ny)
             in case slice3 ipix i of None \<Rightarrow> None
                | Some pa \<Rightarrow>
                   (case slice3 spix j of None \<Rightarrow> None
                    | Some pb \<Rightarrow>
                       (case rgbAbsSumSliceBitwise pa pb of None \<Rightarrow> None
                        | Some d \<Rightarrow> Some (sm + d))))
           [0..w - 1]) [0..h - 1] 0)"

text \<open>
  The dissimilarity as the specification words it: the sum, over every needle pixel
  \<open>(nx, ny)\<close>, of the absolute differences of the R, G and B bytes of the haystack pixel
  \<open>(hx + nx, hy + ny)\<close> and of the needle pixel \<open>(nx, ny)\<close> (counted from the needle's
  \<^verbatim>\<open>Min\<close> corner), as an integer.
\<close>

definition channel :: "RGBA \<Rightarrow> int \<Rightarrow> int \<Rightarrow> nat \<Rightarrow> u8" where
  "channel p x y c = Pix p ! (nat (PixOffset p x y) + c)"

definition spec_patchDissimilarity :: "RGBA \<Rightarrow> int \<Rightarrow> int \<Rightarrow> RGBA \<Rightarrow> int" where
  "spec_patchDissimilarity haystack hx hy needle =
     (let b = RGBA_Rect needle in
      (\<Sum>ny \<leftarrow> [0..Dy b - 1]. \<Sum>nx \<leftarrow> [0..Dx b - 1]. \<Sum>c \<leftarrow> [0, 1, 2].
          \<bar>uint (channel haystack (hx + nx) (hy + ny) c)
            - uint (channel needle (X (Min_p b) + nx) (Y (Min_p b) + ny) c)\<bar>))"

text \<open>
  A raster whose pixel buffer covers its bounds, and a needle that, placed with its
  \<^verbatim>\<open>Min\<close> corner on \<open>(hx, hy)\<close>, lies within the haystack.
\<close>

definition wf_RGBA :: "RGBA \<Rightarrow> bool" where
  "wf_RGBA p \<longleftrightarrow>
     0 \<le> Dx (RGBA_Rect p) \<and> 0 \<le> Dy (RGBA_Rect p) \<and> 0 \<le> Stride p \<and>
     Stride p * (Dy (RGBA_Rect p) - 1) + 4 * Dx (RGBA_Rect p) \<le> int (length (Pix p))"

definition patch_inside :: "RGBA \<Rightarrow> int \<Rightarrow> int \<Rightarrow> RGBA \<Rightarrow> bool" where
  "patch_inside haystack hx hy needle \<longleftrightarrow>
     X (Min_p (RGBA_Rect haystack)) \<le> hx \<and>
     hx + Dx (RGBA_Rect needle) \<le> X (Max_p (RGBA_Rect haystack)) \<and>
     Y (Min_p (RGBA_Rect haystack)) \<le> hy \<and>
     hy + Dy (RGBA_Rect needle) \<le> Y (Max_p (RGBA_Rect haystack))"

text \<open>What one pixel of the needle adds to the sum, as a \<^verbatim>\<open>uint32\<close>.\<close>

definition pixel_diff :: "RGBA \<Rightarrow> int \<Rightarrow> int \<Rightarrow> RGBA \<Rightarrow> int \<Rightarrow> int \<Rightarrow> u32" where
  "pixel_diff img x y subimg nx ny =
     (let b = RGBA_Rect subimg in
      bitwiseAbsDiff (channel img (x + nx) (y + ny) 0) (channel subimg (X (Min_p b) + nx) (Y (Min_p b) + ny) 0)
      + bitwiseAbsDiff (channel img (x + nx) (y + ny) 1) (channel subimg (X (Min_p b) + nx) (Y (Min_p b) + ny) 1)
      + bitwiseAbsDiff (channel img (x + nx) (y + ny) 2) (channel subimg (X (Min_p b) + nx) (Y (Min_p b) + ny) 2))"

text \<open>\<^verbatim>\<open>image.NewRGBA(image.Rect(0, 0, w, h))\<close> with every byte equal to \<open>v\<close>.\<close>

definition uniform_RGBA :: "int \<Rightarrow> int \<Rightarrow> u8 \<Rightarrow> RGBA" where
  "uniform_RGBA w h v =
     \<lparr>Pix = replicate (nat (4 * w * h)) v, Stride = 4 * w, RGBA_Rect = Rect 0 0 w h\<rparr>"

subsection \<open>The bounded candidate list\<close>

text \<open>
  The body of the scan, the same in \<^verbatim>\<open>convolutionTopK\<close> and in the workers of
  \<^verbatim>\<open>convolutionTopKParallel\<close>: while \<^verbatim>\<open>len(matches) < k\<close> the offset is appended;
  otherwise \<^verbatim>\<open>maxDiffIndex\<close> starts at 0, the loop \<^verbatim>\<open>for i := 1; i < k; i++\<close> moves it to
  \<open>i\<close> when \<^verbatim>\<open>minSums[i] > minSums[maxDiffIndex]\<close>, and the entry there is overwritten when
  \<^verbatim>\<open>sum < minSums[maxDiffIndex]\<close>. An index beyond a slice panics.
\<close>

definition maxDiffIndex :: "u32 list \<Rightarrow> int \<Rightarrow> nat option" where
  "maxDiffIndex minSums k =
     fold_opt (\<lambda>i m. if nat i < length minSums \<and> m < length minSums
                      then Some (if minSums ! nat i > minSums ! m then nat i else m)
                      else None)
       [1..k - 1] 0"

definition topk_step ::
  "int \<Rightarrow> Rectangle \<times> u32 \<Rightarrow> Match list \<times> u32 list \<Rightarrow> (Match list \<times> u32 list) option" where
  "topk_step k item st =
     (case (item, st) of ((bounds, sm), (matches, minSums)) \<Rightarrow>
        if int (length matches) < k
        then Some (matches @ [\<lparr>Bounds = bounds, Match = real_of_int (uint sm)\<rparr>],
                   minSums @ [sm])
        else (case maxDiffIndex minSums k of None \<Rightarrow> None
              | Some mi \<Rightarrow>
                 if mi < length minSums
                 then (if sm < minSums ! mi
                       then (if mi < length matches
                             then Some (matches[mi := \<lparr>Bounds = bounds,
                                                       Match = real_of_int (uint sm)\<rparr>],
                                        minSums[mi := sm])
                             else None)
                       else Some (matches, minSums))
                 else None))"

text \<open>One scan pass over a sequence of offsets, each with its rectangle and raw sum.\<close>

definition scan_topk ::
  "int \<Rightarrow> (Rectangle \<times> u32) list \<Rightarrow> (Match list \<times> u32 list) option" where
  "scan_topk k items = fold_opt (topk_step k) items ([], [])"

text \<open>
  What "the \<open>k\<close> smallest raw sums, earliest-seen preferred on ties" selects: the first \<open>k\<close>
  offsets of the sequence sorted by raw sum with a stable sort.
\<close>

definition spec_topk_earliest :: "int \<Rightarrow> (Rectangle \<times> u32) list \<Rightarrow> (Rectangle \<times> u32) list" where
  "spec_topk_earliest k items = take (nat k) (sort_key snd items)"

text \<open>
  The same step as the specification words it: append while the list has fewer than \<open>k\<close>
  entries; once full, take the entry with the largest raw sum, the one at the lowest index
  among equals (\<open>worst_index\<close>), and replace it only if the new raw sum is strictly smaller.
\<close>

definition worst_index :: "u32 list \<Rightarrow> nat" where
  "worst_index ss = length (takeWhile (\<lambda>x. x \<noteq> Max (set ss)) ss)"

definition spec_topk_step ::
  "int \<Rightarrow> Rectangle \<times> u32 \<Rightarrow> Match list \<times> u32 list \<Rightarrow> Match list \<times> u32 list" where
  "spec_topk_step k item st =
     (case (item, st) of ((bounds, sm), (matches, minSums)) \<Rightarrow>
        if int (length minSums) < k
        then (matches @ [\<lparr>Bounds = bounds, Match = real_of_int (uint sm)\<rparr>], minSums @ [sm])
        else if sm < minSums ! worst_index minSums
        then (matches[worst_index minSums := \<lparr>Bounds = bounds, Match = real_of_int (uint sm)\<rparr>],
              minSums[worst_index minSums := sm])
        else (matches, minSums))"

text \<open>
  The invariant of a scan pass after the offsets \<open>items\<close>: the two slices go together, they
  hold \<open>min k (length items)\<close> entries, each entry is one of the offsets with its raw sum, and
  every raw sum seen and not retained is at least every retained one.
\<close>

definition topk_inv :: "int \<Rightarrow> (Rectangle \<times> u32) list \<Rightarrow> Match list \<times> u32 list \<Rightarrow> bool" where
  "topk_inv k items st =
     (case st of (ms, ss) \<Rightarrow>
        length ms = length ss \<and> length ss = min (nat k) (length items) \<and>
        map Match ms = map (\<lambda>s. real_of_int (uint s)) ss \<and>
        set (zip (map Bounds ms) ss) \<subseteq> set items \<and>
        mset ss \<subseteq># mset (map snd items) \<and>
        (\<forall>d \<in># mset (map snd items) - mset ss. \<forall>r \<in># mset ss. r \<le> d))"

subsection \<open>The per-scale matcher\<close>

text \<open>
  A worker of \<^verbatim>\<open>convolutionTopKParallel\<close> scans the rows \<open>ya \<le> y < yb\<close> and the columns
  \<open>xa \<le> x < xb\<close>: at each offset it computes \<^verbatim>\<open>sumOfAbsDiffRGBA(img, x, y, subimg)\<close> and runs
  the body above with \<^verbatim>\<open>image.Rect(x, y, x+subw, y+subh)\<close>; it sends its \<^verbatim>\<open>matches\<close>.
\<close>

definition scan_region ::
  "RGBA \<Rightarrow> RGBA \<Rightarrow> int \<Rightarrow> int \<Rightarrow> int \<Rightarrow> int \<Rightarrow> int \<Rightarrow> int \<Rightarrow> int \<Rightarrow>
     (Match list \<times> u32 list) option" where
  "scan_region img subimg k subw subh xa xb ya yb =
     fold_opt (\<lambda>y. fold_opt (\<lambda>x st.
         case sumOfAbsDiffRGBA img x y subimg of None \<Rightarrow> None
         | Some sm \<Rightarrow> topk_step k (Rect x y (x + subw) (y + subh), sm) st)
       [xa..xb - 1]) [ya..yb - 1] ([], [])"

definition worker ::
  "RGBA \<Rightarrow> RGBA \<Rightarrow> int \<Rightarrow> int \<Rightarrow> int \<Rightarrow> Rectangle \<Rightarrow> int \<Rightarrow> int \<Rightarrow> int \<Rightarrow> Match list option" where
  "worker img subimg k subw subh inner numWorkers sliceHeight workerID =
     (let ya = Y (Min_p inner) + workerID * sliceHeight;
          yb = (if workerID = numWorkers - 1 then Dy inner else ya + sliceHeight);
          xa = X (Min_p inner);
          xb = X (Max_p inner)
      in map_option fst (scan_region img subimg k subw subh xa xb ya yb))"

text \<open>
  The outcome of a function that can fail: \<open>Panic\<close> is a run-time panic (in a worker it
  ends the program), \<open>NonFinite\<close> a float64 operation whose result is an infinity or a NaN,
  after which Go goes on with values this model does not follow.
\<close>

datatype fault = Panic | NonFinite

text \<open>
  \<^verbatim>\<open>func convolutionTopKParallel(img *image.RGBA, subimg *image.RGBA, k int) Matches\<close>.
  \<open>numCPU\<close> is \<^verbatim>\<open>runtime.NumCPU()\<close>. The workers share no mutable state, so each one's list
  is a function of its slice; what the schedule decides is the order in which the matches
  arrive on the channel, and \<^verbatim>\<open>sort.Slice\<close> is not stable: \<open>pick\<close> stands for both, it
  returns the collected matches in the order they have after the sort (for a run of the
  program: a permutation, ascending in the \<^verbatim>\<open>Match\<close> field, which holds the raw sum).
  Then \<^verbatim>\<open>matches = matches[:k]\<close> reslices the slice made by
  \<^verbatim>\<open>make([]Match, 0, k*numWorkers)\<close>: \<open>k\<close> is within the capacity, so the result has
  \<open>k\<close> elements, those beyond the collected ones being the zero values of the backing array.
  Every element is then normalised with \<^verbatim>\<open>norm := 1 / float64(subimgr.Max.X*subimgr.Max.Y*0xFF*3)\<close>.
\<close>

definition reslice :: "Match list \<Rightarrow> int \<Rightarrow> Match list" where
  "reslice matches k =
     (if nat k \<le> length matches then take (nat k) matches
      else matches @ replicate (nat k - length matches) zeroMatch)"

definition convolutionTopKParallel ::
  "(Match list \<Rightarrow> Match list) \<Rightarrow> nat \<Rightarrow> RGBA \<Rightarrow> RGBA \<Rightarrow> int \<Rightarrow> fault + Match list" where
  "convolutionTopKParallel pick numCPU img subimg k0 =
     (let imgr = RGBA_Rect img; subimgr = RGBA_Rect subimg;
          subw = Dx subimgr; subh = Dy subimgr;
          inner = Rect (X (Min_p imgr)) (Y (Min_p imgr))
                       (X (Max_p imgr) - subw) (Y (Max_p imgr) - subh);
          k = (if k0 < 1 then 1 else k0);
          numWorkers = int numCPU * 2
      in if numWorkers = 0 then Inl Panic
         else
           let sliceHeight = Dy inner div numWorkers in
           case those (map (worker img subimg k subw subh inner numWorkers sliceHeight)
                         [0..numWorkers - 1]) of
             None \<Rightarrow> Inl Panic
           | Some sent \<Rightarrow>
               let matches = reslice (pick (concat sent)) k;
                   area = X (Max_p subimgr) * Y (Max_p subimgr) * 255 * 3
               in if area = 0 then Inl NonFinite
                  else let norm = 1 / real_of_int area
                       in Inr (map (\<lambda>m. m\<lparr>Match := 1 - Match m * norm\<rparr>) matches))"

text \<open>
  An order \<open>pick\<close> that a run can produce, and one of them: the arrival order of the workers
  by number, sorted stably.
\<close>

definition valid_pick :: "(Match list \<Rightarrow> Match list) \<Rightarrow> bool" where
  "valid_pick pick \<longleftrightarrow> (\<forall>ms. mset (pick ms) = mset ms \<and> sorted (map Match (pick ms)))"

definition pick_stable :: "Match list \<Rightarrow> Match list" where
  "pick_stable ms = sort_key Match ms"

text \<open>The valid offsets of the needle in the haystack, as the specification defines them.\<close>

definition spec_valid_offset :: "RGBA \<Rightarrow> RGBA \<Rightarrow> Rectangle \<Rightarrow> bool" where
  "spec_valid_offset haystack needle r \<longleftrightarrow>
     0 \<le> X (Min_p r) \<and> X (Min_p r) < Dx (RGBA_Rect haystack) - Dx (RGBA_Rect needle) \<and>
     0 \<le> Y (Min_p r) \<and> Y (Min_p r) < Dy (RGBA_Rect haystack) - Dy (RGBA_Rect needle) \<and>
     Dx r = Dx (RGBA_Rect needle) \<and> Dy r = Dy (RGBA_Rect needle)"


subsection \<open>The scale-pyramid search\<close>













section \<open>Properties\<close>

subsection \<open>The bitwise absolute difference\<close>

lemma signed_drop_bit_31: "signed_drop_bit 31 (v :: 32 word) = (if sint v < 0 then - 1 else 0)"
proof -
  have b: "bit v 31 \<longleftrightarrow> sint v < 0"
    using bit_last_iff [of v] by simp
  show ?thesis
  proof (rule bit_word_eqI)
    fix n assume "n < LENGTH(32)"
    then show "bit (signed_drop_bit 31 v) n \<longleftrightarrow> bit (if sint v < 0 then - 1 else 0 :: 32 word) n"
      using b by (cases "n = 0") (simp_all add: bit_signed_drop_bit_iff)
  qed
qed

lemma uint_u8_bound: "0 \<le> uint (a :: u8) \<and> uint a < 256"
proof -
  have "uint a < 2 ^ LENGTH(8)" by (rule uint_lt2p)
  then show ?thesis by simp
qed

lemma diff_as_int: "(ucast (a :: u8) :: 32 word) - ucast (b :: u8) = word_of_int (uint a - uint b)"
proof -
  have "(ucast a :: 32 word) = word_of_int (uint a)" "(ucast b :: 32 word) = word_of_int (uint b)"
    by (rule ucast_eq)+
  then show ?thesis by (simp only: wi_hom_sub)
qed

lemma sint_diff_u8: "sint ((ucast (a :: u8) :: 32 word) - ucast (b :: u8)) = uint a - uint b"
proof -
  have p: "(2::int) ^ 31 = 2147483648" by simp
  have "- (2 ^ 31) \<le> uint a - uint b \<and> uint a - uint b < 2 ^ 31"
    unfolding p using uint_u8_bound [of a] uint_u8_bound [of b] by linarith
  then have "signed_take_bit 31 (uint a - uint b) = uint a - uint b"
    by (simp only: signed_take_bit_int_eq_self_iff)
  then show ?thesis
    by (simp only: diff_as_int sint_sbintrunc') simp
qed

lemma bitwiseAbsDiff_word: "bitwiseAbsDiff a b = word_of_int \<bar>uint a - uint b\<bar>"
proof (cases "uint a < uint b")
  case True
  then have "bitwiseAbsDiff a b = NOT (word_of_int (uint a - uint b) - 1)"
    by (simp add: bitwiseAbsDiff_def Let_def signed_drop_bit_31 sint_diff_u8)
  also have "\<dots> = word_of_int (uint b - uint a)"
    by (simp add: not_eq_complement)
  finally show ?thesis using True by simp
next
  case False
  then show ?thesis
    by (simp add: bitwiseAbsDiff_def Let_def signed_drop_bit_31 sint_diff_u8)
qed

lemma uint_bitwiseAbsDiff: "uint (bitwiseAbsDiff a b) = \<bar>uint a - uint b\<bar>"
proof -
  have p: "(2::int) ^ 32 = 4294967296" by simp
  have "0 \<le> \<bar>uint a - uint b\<bar> \<and> \<bar>uint a - uint b\<bar> < 2 ^ 32"
    unfolding p using uint_u8_bound [of a] uint_u8_bound [of b] by linarith
  then have "take_bit 32 \<bar>uint a - uint b\<bar> = \<bar>uint a - uint b\<bar>"
    by (simp only: take_bit_int_eq_self_iff)
  then show ?thesis
    by (simp add: bitwiseAbsDiff_word uint_word_of_int_eq)
qed

lemma bitwiseAbsDiff_le: "uint (bitwiseAbsDiff a b) \<le> 255"
  unfolding uint_bitwiseAbsDiff using uint_u8_bound [of a] uint_u8_bound [of b] by linarith

lemma uint_add3:
  fixes x y z :: u32
  assumes "uint x \<le> 255" "uint y \<le> 255" "uint z \<le> 255"
  shows "uint (x + y + z) = uint x + uint y + uint z"
proof -
  have p: "(2::int) ^ 32 = 4294967296" by simp
  have "0 \<le> uint x + uint y + uint z \<and> uint x + uint y + uint z < 2 ^ 32"
    unfolding p using assms uint_ge_0 [of x] uint_ge_0 [of y] uint_ge_0 [of z] by linarith
  then have "take_bit 32 (uint x + uint y + uint z) = uint x + uint y + uint z"
    by (simp only: take_bit_int_eq_self_iff)
  moreover have "uint (x + y + z) = take_bit 32 (uint x + uint y + uint z)"
    by (simp add: uint_word_ariths take_bit_eq_mod mod_add_left_eq)
  ultimately show ?thesis by simp
qed

lemma uint_rgb_sum:
  "uint (bitwiseAbsDiff r1 r2 + bitwiseAbsDiff g1 g2 + bitwiseAbsDiff b1 b2) =
     \<bar>uint r1 - uint r2\<bar> + \<bar>uint g1 - uint g2\<bar> + \<bar>uint b1 - uint b2\<bar>"
  by (simp only: uint_add3 [OF bitwiseAbsDiff_le bitwiseAbsDiff_le bitwiseAbsDiff_le]
        uint_bitwiseAbsDiff)

lemma uint_rgb_sum_le:
  "uint (bitwiseAbsDiff r1 r2 + bitwiseAbsDiff g1 g2 + bitwiseAbsDiff b1 b2) \<le> 765"
  unfolding uint_add3 [OF bitwiseAbsDiff_le bitwiseAbsDiff_le bitwiseAbsDiff_le]
  using bitwiseAbsDiff_le [of r1 r2] bitwiseAbsDiff_le [of g1 g2] bitwiseAbsDiff_le [of b1 b2]
  by linarith

text \<open>
  Claim C10. For all 8-bit values \<open>a\<close> and \<open>b\<close>, \<open>bitwiseAbsDiff a b\<close> is the absolute
  difference \<open>|a - b|\<close> over the integers; and on two 3-byte pixel slices
  \<open>rgbAbsSumSliceBitwise\<close> returns (without a panic) the exact sum of the three per-channel
  absolute differences, which is at most 765.
\<close>

theorem bitwiseAbsDiff_exact:
  "uint (bitwiseAbsDiff a b) = \<bar>uint a - uint b\<bar> \<and>
   (\<exists>s. rgbAbsSumSliceBitwise [r1, g1, b1] [r2, g2, b2] = Some s \<and>
        uint s = \<bar>uint r1 - uint r2\<bar> + \<bar>uint g1 - uint g2\<bar> + \<bar>uint b1 - uint b2\<bar> \<and>
        uint s \<le> 765)"
proof -
  let ?s = "bitwiseAbsDiff r1 r2 + bitwiseAbsDiff g1 g2 + bitwiseAbsDiff b1 b2"
  have "rgbAbsSumSliceBitwise [r1, g1, b1] [r2, g2, b2] = Some ?s"
    by (simp add: rgbAbsSumSliceBitwise_def)
  moreover note uint_rgb_sum [of r1 r2 g1 g2 b1 b2] uint_rgb_sum_le [of r1 r2 g1 g2 b1 b2]
    uint_bitwiseAbsDiff [of a b]
  ultimately show ?thesis by blast
qed

subsection \<open>Scaling a match there and back\<close>






subsection \<open>Serialisation\<close>

text \<open>
  Claim C9. The JSON record of a match has \<open>bounds{x, y, w, h}\<close> with \<open>w\<close> the width and
  \<open>h\<close> the height, and the score. The text line, however, ends with the coordinates of the
  \<^verbatim>\<open>Max\<close> corner, not with the width and the height that the documentation promises: for
  the rectangle (271,108)-(372,209), of size 101 by 101, the code prints
  \<^verbatim>\<open>271 108 372 209\<close> where the documented line has \<^verbatim>\<open>271 108 101 101\<close>.
\<close>

theorem print_match_prints_max_corner:
  "print_match f \<lparr>Bounds = Rect 271 108 372 209, Match = sc\<rparr>
     = f sc @ ''  271  108  372  209'' @ [CHR 0x0A] \<and>
   spec_print_match f \<lparr>Bounds = Rect 271 108 372 209, Match = sc\<rparr>
     = f sc @ ''  271  108  101  101'' @ [CHR 0x0A] \<and>
   MarshalJSON \<lparr>Bounds = Rect 271 108 372 209, Match = sc\<rparr>
     = \<lparr>json_bounds = \<lparr>json_x = 271, json_y = 108, json_w = 101, json_h = 101\<rparr>,
        json_match = sc\<rparr>"
  by (simp add: print_match_def spec_print_match_def MarshalJSON_def Rect_def Dx_def Dy_def
        fmt_4d_def fmt_d_def)

subsection \<open>The worst-replacement scan\<close>

lemma fold_opt_append:
  "fold_opt f (xs @ ys) s = (case fold_opt f xs s of None \<Rightarrow> None | Some s' \<Rightarrow> fold_opt f ys s')"
  by (induction xs arbitrary: s) (auto split: option.splits)

lemma map_int_upt: "map int [m..<n] = [int m..int n - 1]"
proof (induction n)
  case 0 then show ?case by simp
next
  case (Suc n)
  show ?case
  proof (cases "m \<le> n")
    case True
    then have "[int m..int (Suc n) - 1] = [int m..int n - 1] @ [int n]"
      using upto_rec2 [of "int m" "int n"] by simp
    then show ?thesis using True Suc by simp
  next
    case False then show ?thesis by simp
  qed
qed

lemma upto_as_nat: "1 \<le> k \<Longrightarrow> [1..k - 1] = map int [1..<nat k]"
  using map_int_upt [of 1 "nat k"] by simp

lemma maxDiffIndex_nat:
  fixes ss :: "u32 list"
  assumes "1 \<le> n" "n \<le> length ss"
  shows "\<exists>m. fold_opt (\<lambda>i m. if nat i < length ss \<and> m < length ss
                      then Some (if ss ! nat i > ss ! m then nat i else m)
                      else None) (map int [1..<n]) 0 = Some m \<and> m < n \<and>
           (\<forall>i<n. ss ! i \<le> ss ! m) \<and> (\<forall>i<m. ss ! i < ss ! m)"
  using assms
proof (induction n)
  case 0 then show ?case by simp
next
  case (Suc n)
  show ?case
  proof (cases "n = 0")
    case True then show ?thesis by simp
  next
    case False
    then obtain m where m: "fold_opt (\<lambda>i m. if nat i < length ss \<and> m < length ss
                      then Some (if ss ! nat i > ss ! m then nat i else m)
                      else None) (map int [1..<n]) 0 = Some m" "m < n"
           "\<forall>i<n. ss ! i \<le> ss ! m" "\<forall>i<m. ss ! i < ss ! m"
      using Suc by auto
    have up: "[1..<Suc n] = [1..<n] @ [n]" using False by simp
    show ?thesis
    proof (cases "ss ! n > ss ! m")
      case True
      then show ?thesis using m Suc.prems
        apply (simp only: up map_append fold_opt_append)
        apply (auto simp: less_Suc_eq)
        done
    next
      case False
      then show ?thesis using m Suc.prems
        apply (simp only: up map_append fold_opt_append)
        apply (auto simp: less_Suc_eq)
        done
    qed
  qed
qed
lemma maxDiffIndex_correct:
  assumes "1 \<le> k" "nat k \<le> length ss"
  shows "\<exists>m. maxDiffIndex ss k = Some m \<and> m < nat k \<and>
           (\<forall>i<nat k. ss ! i \<le> ss ! m) \<and> (\<forall>i<m. ss ! i < ss ! m)"
proof -
  have "1 \<le> nat k" using assms by simp
  from maxDiffIndex_nat [OF this assms(2)] show ?thesis
    unfolding maxDiffIndex_def upto_as_nat [OF assms(1)] .
qed

lemma subset_size_eq:
  fixes A B :: "'a multiset"
  assumes "A \<subseteq># B" "size A = size B"
  shows "A = B"
proof -
  have B: "B = A + (B - A)" using assms(1) by simp
  then have "size B = size A + size (B - A)" by (metis size_union)
  then have "B - A = {#}" using assms(2) by simp
  then show ?thesis using B by simp
qed

lemma ksmallest_unique:
  fixes A B M :: "'a::linorder multiset"
  assumes "A \<subseteq># M" "B \<subseteq># M" "size A = size B"
    and a: "\<forall>d \<in># M - A. \<forall>r \<in># A. r \<le> d"
    and b: "\<forall>d \<in># M - B. \<forall>r \<in># B. r \<le> d"
  shows "A = B"
proof (rule ccontr)
  assume ne: "A \<noteq> B"
  have "\<not> A \<subseteq># B" using ne assms(3) subset_size_eq by blast
  then obtain x where x: "count B x < count A x"
    by (meson mset_subset_eqI not_le)
  have "\<not> B \<subseteq># A" using ne assms(3) subset_size_eq [of B A] by auto
  then obtain y where y: "count A y < count B y"
    by (meson mset_subset_eqI not_le)
  have xA: "x \<in># A" using x by (simp add: count_greater_zero_iff [symmetric] del: count_greater_zero_iff)
  have yB: "y \<in># B" using y by (simp add: count_greater_zero_iff [symmetric] del: count_greater_zero_iff)
  have "count A x \<le> count M x" using assms(1) by (simp add: mset_subset_eq_count)
  then have xMB: "x \<in># M - B" using x by (simp add: in_diff_count)
  have "count B y \<le> count M y" using assms(2) by (simp add: mset_subset_eq_count)
  then have yMA: "y \<in># M - A" using y by (simp add: in_diff_count)
  have "x \<le> y" using a yMA xA by blast
  moreover have "y \<le> x" using b xMB yB by blast
  ultimately have "x = y" by simp
  then show False using x y by simp
qed

lemma take_sort_ksmallest:
  fixes xs :: "'a::linorder list"
  shows "mset (take n (sort xs)) \<subseteq># mset xs"
    and "size (mset (take n (sort xs))) = min n (length xs)"
    and "\<forall>d \<in># mset xs - mset (take n (sort xs)). \<forall>r \<in># mset (take n (sort xs)). r \<le> d"
proof -
  have split: "mset xs = mset (take n (sort xs)) + mset (drop n (sort xs))"
    by (metis append_take_drop_id mset_append mset_sort)
  show "mset (take n (sort xs)) \<subseteq># mset xs" by (simp add: split)
  show "size (mset (take n (sort xs))) = min n (length xs)" by simp
  have "sorted (take n (sort xs) @ drop n (sort xs))" by simp
  then have "\<forall>r \<in> set (take n (sort xs)). \<forall>d \<in> set (drop n (sort xs)). r \<le> d"
    unfolding sorted_append by blast
  then show "\<forall>d \<in># mset xs - mset (take n (sort xs)). \<forall>r \<in># mset (take n (sort xs)). r \<le> d"
    by (simp add: split)
qed
lemma worst_index_eq:
  fixes ss :: "u32 list"
  assumes "m < length ss" "\<forall>i<length ss. ss ! i \<le> ss ! m" "\<forall>i<m. ss ! i < ss ! m"
  shows "worst_index ss = m" and "ss ! m = Max (set ss)"
proof -
  show mx: "ss ! m = Max (set ss)"
  proof (rule Max_eqI [symmetric])
    show "finite (set ss)" by simp
    show "ss ! m \<in> set ss" using assms(1) by simp
    fix y assume "y \<in> set ss"
    then obtain i where "i < length ss" "ss ! i = y" by (auto simp: in_set_conv_nth)
    then show "y \<le> ss ! m" using assms(2) by auto
  qed
  have "takeWhile (\<lambda>x. x \<noteq> Max (set ss)) ss = take m ss"
  proof (rule takeWhile_eq_take_P_nth)
    fix i assume "i < m" "i < length ss"
    then show "ss ! i \<noteq> Max (set ss)" using assms(3) mx by auto
  next
    assume "m < length ss"
    then show "\<not> ss ! m \<noteq> Max (set ss)" using mx by simp
  qed
  then show "worst_index ss = m" using assms(1) by (simp add: worst_index_def)
qed

lemma topk_step_refines:
  assumes k: "1 \<le> k" and len: "length ms = length ss" "length ss \<le> nat k"
  shows "topk_step k it (ms, ss) = Some (spec_topk_step k it (ms, ss))"
proof (cases "int (length ss) < k")
  case True
  then show ?thesis using len
    by (simp add: topk_step_def spec_topk_step_def split: prod.splits)
next
  case False
  then have full: "length ss = nat k" using len k by linarith
  then have "nat k \<le> length ss" by simp
  from maxDiffIndex_correct [OF k this] obtain m where
    m: "maxDiffIndex ss k = Some m" "m < nat k" "\<forall>i<nat k. ss ! i \<le> ss ! m"
       "\<forall>i<m. ss ! i < ss ! m" by blast
  have "worst_index ss = m"
    using worst_index_eq(1) [of m ss] m full by simp
  then show ?thesis using False m full len
    by (simp add: topk_step_def spec_topk_step_def split: prod.splits)
qed

lemma worst_index_props:
  fixes ss :: "u32 list"
  assumes "ss \<noteq> []"
  shows "worst_index ss < length ss" and "ss ! worst_index ss = Max (set ss)"
proof -
  have "Max (set ss) \<in> set ss" using assms by simp
  then have "\<not> (\<forall>x \<in> set ss. x \<noteq> Max (set ss))" by blast
  then have "takeWhile (\<lambda>x. x \<noteq> Max (set ss)) ss \<noteq> ss"
    by (simp only: takeWhile_eq_all_conv) simp
  then have "length (takeWhile (\<lambda>x. x \<noteq> Max (set ss)) ss) \<noteq> length ss"
    using takeWhile_eq_take [of "\<lambda>x. x \<noteq> Max (set ss)" ss] by auto
  then show l: "worst_index ss < length ss"
    unfolding worst_index_def
    using length_takeWhile_le [of "\<lambda>x. x \<noteq> Max (set ss)" ss] by linarith
  show "ss ! worst_index ss = Max (set ss)"
    using nth_length_takeWhile [of "\<lambda>x. x \<noteq> Max (set ss)" ss] l
    unfolding worst_index_def by auto
qed

lemma topk_inv_step:
  assumes k: "1 \<le> k" and inv: "topk_inv k items st"
  shows "topk_inv k (items @ [it]) (spec_topk_step k it st)"
proof -
  obtain ms ss where st: "st = (ms, ss)" by (cases st)
  obtain b s where it: "it = (b, s)" by (cases it)
  let ?M = "mset (map snd items)"
  from inv st have len: "length ms = length ss" "length ss = min (nat k) (length items)"
    and sc: "map Match ms = map (\<lambda>s. real_of_int (uint s)) ss"
    and zs: "set (zip (map Bounds ms) ss) \<subseteq> set items"
    and sub: "mset ss \<subseteq># ?M"
    and low: "\<forall>d \<in># ?M - mset ss. \<forall>r \<in># mset ss. r \<le> d"
    by (auto simp: topk_inv_def)
  show ?thesis
  proof (cases "int (length ss) < k")
    case True
    then have "length ss = length items" using len by linarith
    then have "size (mset ss) = size ?M" by simp
    then have eq: "mset ss = ?M" using sub subset_size_eq by blast
    have "set (zip (map Bounds ms @ [b]) (ss @ [s])) \<subseteq> set (items @ [(b, s)])"
      using zs len by (auto simp: zip_append1)
    then show ?thesis using True len sc eq
      by (auto simp: topk_inv_def spec_topk_step_def st it)
  next
    case False
    then have full: "length ss = nat k" "nat k \<le> length items" using len k by linarith+
    then have ne: "ss \<noteq> []" using k by auto
    let ?w = "worst_index ss"
    have w: "?w < length ss" "ss ! ?w = Max (set ss)" using worst_index_props [OF ne] by auto
    have mx: "\<forall>r \<in># mset ss. r \<le> ss ! ?w" using w by simp
    have win: "ss ! ?w \<in># mset ss" using w(1) by simp
    show ?thesis
    proof (cases "s < ss ! ?w")
      case True
      let ?ss' = "ss[?w := s]"
      have ms': "mset ?ss' = add_mset s (mset ss - {#ss ! ?w#})"
        using w(1) by (rule mset_update)
      have sub': "mset ?ss' \<subseteq># add_mset s ?M"
        unfolding ms' using sub by (meson diff_subset_eq_self mset_subset_eq_add_mset_cancel subset_mset.order_trans)
      have cnt: "\<And>x. count (mset ss) x \<le> count ?M x"
        using sub by (simp add: mset_subset_eq_count)
      have cw: "1 \<le> count (mset ss) (ss ! ?w)"
        using win by (simp add: count_greater_zero_iff [symmetric] del: count_greater_zero_iff)
      have diff: "add_mset s ?M - mset ?ss' = add_mset (ss ! ?w) (?M - mset ss)"
      proof (rule multiset_eqI)
        fix x
        show "count (add_mset s ?M - mset ?ss') x = count (add_mset (ss ! ?w) (?M - mset ss)) x"
          unfolding ms' using cnt [of x] cw by auto
      qed
      have low': "\<forall>d \<in># add_mset s ?M - mset ?ss'. \<forall>r \<in># mset ?ss'. r \<le> d"
      proof (intro ballI)
        fix d r assume d: "d \<in># add_mset s ?M - mset ?ss'" and r: "r \<in># mset ?ss'"
        from r have r': "r = s \<or> r \<in># mset ss"
          unfolding ms' by (auto dest: in_diffD)
        from d have d': "d = ss ! ?w \<or> d \<in># ?M - mset ss"
          unfolding diff by auto
        have ge: "ss ! ?w \<le> d"
          using d' low win by auto
        show "r \<le> d"
          using r' True mx ge by (auto intro: order_trans)
      qed
      have zs': "set (zip (map Bounds (ms[?w := \<lparr>Bounds = b, Match = real_of_int (uint s)\<rparr>])) ?ss')
                   \<subseteq> set (items @ [(b, s)])"
      proof -
        have "zip (map Bounds (ms[?w := \<lparr>Bounds = b, Match = real_of_int (uint s)\<rparr>])) ?ss'
                = (zip (map Bounds ms) ss)[?w := (b, s)]"
          by (simp add: map_update update_zip)
        then show ?thesis
          using zs set_update_subset_insert [of "zip (map Bounds ms) ss" ?w "(b, s)"] by auto
      qed
      show ?thesis using True False len sc sub' low' zs'
        by (simp add: topk_inv_def spec_topk_step_def st it map_update)
    next
      case F2: False
      have cnt: "\<And>x. count (mset ss) x \<le> count ?M x"
        using sub by (simp add: mset_subset_eq_count)
      have diff: "add_mset s ?M - mset ss = add_mset s (?M - mset ss)"
      proof (rule multiset_eqI)
        fix x
        show "count (add_mset s ?M - mset ss) x = count (add_mset s (?M - mset ss)) x"
          using cnt [of x] by auto
      qed
      have low': "\<forall>d \<in># add_mset s ?M - mset ss. \<forall>r \<in># mset ss. r \<le> d"
      proof (intro ballI)
        fix d r assume d: "d \<in># add_mset s ?M - mset ss" and r: "r \<in># mset ss"
        from d have "d = s \<or> d \<in># ?M - mset ss" unfolding diff by auto
        then show "r \<le> d"
        proof
          assume "d = s"
          moreover have "r \<le> ss ! ?w" using mx r by blast
          ultimately show ?thesis using F2 by auto
        next
          assume "d \<in># ?M - mset ss"
          then show ?thesis using low r by blast
        qed
      qed
      have "?M \<subseteq># add_mset s ?M" by simp
      with sub have sub': "mset ss \<subseteq># add_mset s ?M"
        by (rule subset_mset.order_trans)
      have zs': "set (zip (map Bounds ms) ss) \<subseteq> set (items @ [(b, s)])"
        using zs by auto
      show ?thesis using F2 False len sc zs' sub' low'
        by (simp add: topk_inv_def spec_topk_step_def st it)
    qed
  qed
qed
lemma scan_topk_inv:
  assumes k: "1 \<le> k"
  shows "\<exists>st. scan_topk k items = Some st \<and> topk_inv k items st"
proof (induction items rule: rev_induct)
  case Nil
  show ?case by (simp add: scan_topk_def topk_inv_def)
next
  case (snoc it items)
  then obtain ms ss where st: "scan_topk k items = Some (ms, ss)" "topk_inv k items (ms, ss)"
    by auto
  then have len: "length ms = length ss" "length ss \<le> nat k"
    by (auto simp: topk_inv_def)
  have "scan_topk k (items @ [it]) = Some (spec_topk_step k it (ms, ss))"
    using st(1) topk_step_refines [OF k len]
    by (simp add: scan_topk_def fold_opt_append)
  then show ?case using topk_inv_step [OF k st(2)] by simp
qed

text \<open>
  Claim C4, amended. In a scan pass with cap \<open>k \<ge> 1\<close> the code never panics and, after every
  offset, the invariant \<open>topk_inv\<close> holds: every raw sum seen so far and not retained is at
  least every retained one. Each further offset is processed as the specification's step
  says (appended while fewer than \<open>k\<close> entries, else the largest entry, lowest index among
  equals, is replaced only by a strictly smaller sum). Hence the retained raw sums are,
  as a multiset, the \<open>k\<close> smallest seen. Which of several offsets with equal sums is
  retained is not "the earliest seen": see the counterexample below.
\<close>

theorem scan_topk_worst_replacement:
  assumes k: "1 \<le> k"
  shows "\<exists>ms ss. scan_topk k items = Some (ms, ss) \<and> topk_inv k items (ms, ss) \<and>
           mset ss = mset (take (nat k) (sort (map snd items))) \<and>
           scan_topk k (items @ [it]) = Some (spec_topk_step k it (ms, ss))"
proof -
  from scan_topk_inv [OF k] obtain ms ss where
    st: "scan_topk k items = Some (ms, ss)" "topk_inv k items (ms, ss)"
    by (metis surj_pair)
  then have len: "length ms = length ss" "length ss \<le> nat k"
      "length ss = min (nat k) (length items)"
    and sub: "mset ss \<subseteq># mset (map snd items)"
    and low: "\<forall>d \<in># mset (map snd items) - mset ss. \<forall>r \<in># mset ss. r \<le> d"
    by (auto simp: topk_inv_def)
  have step: "scan_topk k (items @ [it]) = Some (spec_topk_step k it (ms, ss))"
    using st(1) topk_step_refines [OF k len(1,2)]
    by (simp add: scan_topk_def fold_opt_append)
  have "mset ss = mset (take (nat k) (sort (map snd items)))"
  proof (rule ksmallest_unique [OF sub _ _ low])
    show "mset (take (nat k) (sort (map snd items))) \<subseteq># mset (map snd items)"
      by (rule take_sort_ksmallest(1))
    show "size (mset ss) = size (mset (take (nat k) (sort (map snd items))))"
      using len(3) by simp
    show "\<forall>d \<in># mset (map snd items) - mset (take (nat k) (sort (map snd items))).
            \<forall>r \<in># mset (take (nat k) (sort (map snd items))). r \<le> d"
      by (rule take_sort_ksmallest(3))
  qed
  with st step show ?thesis by blast
qed

theorem scan_topk_worst_replacement_witness:
  "(1::int) \<le> 2 \<and>
   (\<exists>ms ss. scan_topk 2 [(Rect 0 0 1 1, 5), (Rect 1 0 2 1, 5)] = Some (ms, ss) \<and>
      topk_inv 2 [(Rect 0 0 1 1, 5), (Rect 1 0 2 1, 5)] (ms, ss) \<and>
      mset ss = mset (take (nat 2) (sort (map snd [(Rect 0 0 1 1, 5 :: u32), (Rect 1 0 2 1, 5)]))) \<and>
      scan_topk 2 ([(Rect 0 0 1 1, 5), (Rect 1 0 2 1, 5)] @ [(Rect 2 0 3 1, 1)])
        = Some (spec_topk_step 2 (Rect 2 0 3 1, 1) (ms, ss)))"
  using scan_topk_worst_replacement [of 2 "[(Rect 0 0 1 1, 5), (Rect 1 0 2 1, 5)]" "(Rect 2 0 3 1, 1)"]
  by simp

text \<open>
  The scan of a worker over its slice is such a pass over the offsets of the slice, row by
  row, wherever the dissimilarity is computed without a panic.
\<close>

lemma fold_opt_cong:
  assumes "\<And>x s. x \<in> set xs \<Longrightarrow> f x s = g x s"
  shows "fold_opt f xs s = fold_opt g xs s"
  using assms by (induction xs arbitrary: s) (simp_all split: option.splits)

lemma fold_opt_map: "fold_opt f (map g xs) s = fold_opt (\<lambda>x. f (g x)) xs s"
  by (induction xs arbitrary: s) (simp_all split: option.splits)

lemma fold_opt_concat: "fold_opt f (concat xss) s = fold_opt (\<lambda>xs. fold_opt f xs) xss s"
  by (induction xss arbitrary: s) (simp_all add: fold_opt_append split: option.splits)

lemma scan_region_as_scan_topk:
  assumes "\<And>x y. x \<in> set [xa..xb - 1] \<Longrightarrow> y \<in> set [ya..yb - 1] \<Longrightarrow>
             sumOfAbsDiffRGBA img x y subimg = Some (raw x y)"
  shows "scan_region img subimg k subw subh xa xb ya yb =
           scan_topk k (concat (map (\<lambda>y. map (\<lambda>x. (Rect x y (x + subw) (y + subh), raw x y))
                                       [xa..xb - 1]) [ya..yb - 1]))"
proof -
  have row: "fold_opt (\<lambda>x st. case sumOfAbsDiffRGBA img x y subimg of None \<Rightarrow> None
                 | Some sm \<Rightarrow> topk_step k (Rect x y (x + subw) (y + subh), sm) st) [xa..xb - 1] st
             = fold_opt (\<lambda>x. topk_step k (Rect x y (x + subw) (y + subh), raw x y)) [xa..xb - 1] st"
    if "y \<in> set [ya..yb - 1]" for y st
  proof (rule fold_opt_cong)
    fix x s assume "x \<in> set [xa..xb - 1]"
    then have "sumOfAbsDiffRGBA img x y subimg = Some (raw x y)" using that by (rule assms)
    then show "(case sumOfAbsDiffRGBA img x y subimg of None \<Rightarrow> None
                 | Some sm \<Rightarrow> topk_step k (Rect x y (x + subw) (y + subh), sm) s)
               = topk_step k (Rect x y (x + subw) (y + subh), raw x y) s"
      by simp
  qed
  show ?thesis
    unfolding scan_region_def scan_topk_def fold_opt_concat fold_opt_map
    by (rule fold_opt_cong) (rule row)
qed

text \<open>
  Claim C4, as stated, fails in its last words ("earliest-seen preferred on ties"): with
  \<open>k = 2\<close> and the raw sums 5, 5, 1 at three offsets, the third offset replaces the entry
  at index 0, the first offset seen, and the list retains the second and the third; the two
  smallest raw sums with the earliest offset preferred on ties are the third and the first.
\<close>

theorem scan_topk_tie_counterexample:
  "scan_topk 2 [(Rect 0 0 1 1, 5), (Rect 1 0 2 1, 5), (Rect 2 0 3 1, 1)]
     = Some ([\<lparr>Bounds = Rect 2 0 3 1, Match = 1\<rparr>, \<lparr>Bounds = Rect 1 0 2 1, Match = 5\<rparr>], [1, 5]) \<and>
   spec_topk_earliest 2 [(Rect 0 0 1 1, 5), (Rect 1 0 2 1, 5), (Rect 2 0 3 1, 1)]
     = [(Rect 2 0 3 1, 1), (Rect 0 0 1 1, 5)] \<and>
   Rect 0 0 1 1 \<noteq> Rect 1 0 2 1"
  by (simp add: scan_topk_def topk_step_def maxDiffIndex_def spec_topk_earliest_def Rect_def
        word_le_nat_alt)

subsection \<open>The patch dissimilarity\<close>

lemma pix_in_range:
  assumes wf: "wf_RGBA p"
    and x: "X (Min_p (RGBA_Rect p)) \<le> px" "px < X (Max_p (RGBA_Rect p))"
    and y: "Y (Min_p (RGBA_Rect p)) \<le> py" "py < Y (Max_p (RGBA_Rect p))"
  shows "0 \<le> PixOffset p px py" and "PixOffset p px py + 4 \<le> int (length (Pix p))"
proof -
  define dx where "dx = px - X (Min_p (RGBA_Rect p))"
  define dy where "dy = py - Y (Min_p (RGBA_Rect p))"
  define S where "S = Stride p"
  have S0: "0 \<le> S" and L: "S * (Dy (RGBA_Rect p) - 1) + 4 * Dx (RGBA_Rect p) \<le> int (length (Pix p))"
    using wf by (simp_all add: wf_RGBA_def S_def)
  have dx: "0 \<le> dx" "dx + 1 \<le> Dx (RGBA_Rect p)" using x by (simp_all add: dx_def Dx_def)
  have dy: "0 \<le> dy" "dy \<le> Dy (RGBA_Rect p) - 1" using y by (simp_all add: dy_def Dy_def)
  have off: "PixOffset p px py = dy * S + dx * 4"
    by (simp add: PixOffset_def dx_def dy_def S_def)
  have "0 \<le> dy * S" using dy(1) S0 by simp
  then show "0 \<le> PixOffset p px py" using dx(1) off by simp
  have "dy * S \<le> (Dy (RGBA_Rect p) - 1) * S" using dy(2) S0 by (rule mult_right_mono)
  then have "dy * S + dx * 4 + 4 \<le> S * (Dy (RGBA_Rect p) - 1) + 4 * Dx (RGBA_Rect p)"
    using dx(2) by (simp add: mult.commute)
  then show "PixOffset p px py + 4 \<le> int (length (Pix p))" using L off by linarith
qed

lemma slice3_Some:
  assumes "0 \<le> i" "i + 4 \<le> int (length pix)"
  shows "slice3 pix i = Some [pix ! nat i, pix ! (nat i + 1), pix ! (nat i + 2)]"
proof -
  have n: "nat i + 3 \<le> length pix" using assms by linarith
  have "take 3 (drop (nat i) pix) = [pix ! nat i, pix ! (nat i + 1), pix ! (nat i + 2)]"
    using n by (simp add: list_eq_iff_nth_eq nth_Cons' numeral_3_eq_3 less_Suc_eq)
  then show ?thesis using assms by (simp add: slice3_def)
qed

lemma fold_opt_add:
  fixes g :: "'a \<Rightarrow> u32"
  assumes "\<And>x s. x \<in> set xs \<Longrightarrow> f x s = Some (s + g x)"
  shows "fold_opt f xs s = Some (s + sum_list (map g xs))"
  using assms by (induction xs arbitrary: s) (simp_all add: add.assoc)

lemma uint_sum_list_word:
  fixes ws :: "u32 list"
  shows "sum_list ws = word_of_int (sum_list (map uint ws))"
  by (induction ws) (simp_all add: wi_hom_add [symmetric] del: wi_hom_add)

lemma sumOfAbsDiffRGBA_words:
  assumes wfi: "wf_RGBA img" and wfs: "wf_RGBA subimg" and ins: "patch_inside img x y subimg"
  shows "sumOfAbsDiffRGBA img x y subimg =
     Some (\<Sum>ny \<leftarrow> [0..Dy (RGBA_Rect subimg) - 1]. \<Sum>nx \<leftarrow> [0..Dx (RGBA_Rect subimg) - 1].
              pixel_diff img x y subimg nx ny)"
proof -
  let ?b = "RGBA_Rect subimg"
  let ?f = "\<lambda>ny nx sm.
             let i = PixOffset img (x + nx) (y + ny);
                 j = PixOffset subimg (X (Min_p ?b) + nx) (Y (Min_p ?b) + ny)
             in case slice3 (Pix img) i of None \<Rightarrow> None
                | Some pa \<Rightarrow>
                   (case slice3 (Pix subimg) j of None \<Rightarrow> None
                    | Some pb \<Rightarrow>
                       (case rgbAbsSumSliceBitwise pa pb of None \<Rightarrow> None
                        | Some d \<Rightarrow> Some (sm + d)))"
  have px: "?f ny nx sm = Some (sm + pixel_diff img x y subimg nx ny)"
    if ny: "ny \<in> set [0..Dy ?b - 1]" and nx: "nx \<in> set [0..Dx ?b - 1]" for nx ny sm
  proof -
    have r: "0 \<le> nx" "nx < Dx ?b" "0 \<le> ny" "ny < Dy ?b" using nx ny by auto
    have i: "0 \<le> PixOffset img (x + nx) (y + ny)"
            "PixOffset img (x + nx) (y + ny) + 4 \<le> int (length (Pix img))"
      using pix_in_range [OF wfi, of "x + nx" "y + ny"] ins r
      by (auto simp: patch_inside_def)
    have j: "0 \<le> PixOffset subimg (X (Min_p ?b) + nx) (Y (Min_p ?b) + ny)"
            "PixOffset subimg (X (Min_p ?b) + nx) (Y (Min_p ?b) + ny) + 4 \<le> int (length (Pix subimg))"
      using pix_in_range [OF wfs, of "X (Min_p ?b) + nx" "Y (Min_p ?b) + ny"] r
      by (auto simp: Dx_def Dy_def)
    show ?thesis
      by (simp add: Let_def slice3_Some [OF i] slice3_Some [OF j] rgbAbsSumSliceBitwise_def
            pixel_diff_def channel_def)
  qed
  have row: "fold_opt (?f ny) [0..Dx ?b - 1] sm
               = Some (sm + (\<Sum>nx \<leftarrow> [0..Dx ?b - 1]. pixel_diff img x y subimg nx ny))"
    if "ny \<in> set [0..Dy ?b - 1]" for ny sm
    by (rule fold_opt_add) (rule px [OF that])
  have "fold_opt (\<lambda>ny. fold_opt (?f ny) [0..Dx ?b - 1]) [0..Dy ?b - 1] 0
          = Some (0 + (\<Sum>ny \<leftarrow> [0..Dy ?b - 1]. \<Sum>nx \<leftarrow> [0..Dx ?b - 1]. pixel_diff img x y subimg nx ny))"
    by (rule fold_opt_add) (rule row)
  then show ?thesis by (simp add: sumOfAbsDiffRGBA_def Let_def)
qed

lemma word_double_sum:
  fixes g :: "'a \<Rightarrow> 'b \<Rightarrow> u32"
  shows "(\<Sum>y \<leftarrow> ys. \<Sum>x \<leftarrow> xs. g y x) = word_of_int (\<Sum>y \<leftarrow> ys. \<Sum>x \<leftarrow> xs. uint (g y x))"
proof (induction ys)
  case Nil show ?case by simp
next
  case (Cons y ys)
  have "(\<Sum>x \<leftarrow> xs. g y x) = word_of_int (\<Sum>x \<leftarrow> xs. uint (g y x))"
    using uint_sum_list_word [of "map (g y) xs"] by (simp add: o_def)
  then show ?case using Cons by (simp add: wi_hom_add [symmetric] del: wi_hom_add)
qed

lemma sum_list_bounds:
  fixes f :: "'a \<Rightarrow> int"
  assumes "\<And>x. x \<in> set xs \<Longrightarrow> 0 \<le> f x \<and> f x \<le> c"
  shows "0 \<le> sum_list (map f xs) \<and> sum_list (map f xs) \<le> c * int (length xs)"
  using assms
proof (induction xs)
  case Nil show ?case by simp
next
  case (Cons x xs)
  then have "0 \<le> f x \<and> f x \<le> c" "0 \<le> sum_list (map f xs) \<and> sum_list (map f xs) \<le> c * int (length xs)"
    by simp_all
  then show ?case by (simp add: algebra_simps)
qed

lemma uint_pixel_diff:
  "uint (pixel_diff img x y subimg nx ny) =
     (let b = RGBA_Rect subimg in
      \<Sum>c \<leftarrow> [0, 1, 2]. \<bar>uint (channel img (x + nx) (y + ny) c)
            - uint (channel subimg (X (Min_p b) + nx) (Y (Min_p b) + ny) c)\<bar>)"
  by (simp add: pixel_diff_def Let_def uint_rgb_sum)

lemma uint_pixel_diff_le: "uint (pixel_diff img x y subimg nx ny) \<le> 765"
  by (simp add: pixel_diff_def Let_def uint_rgb_sum_le)

lemma spec_as_pixel_diff:
  "spec_patchDissimilarity img x y subimg =
     (\<Sum>ny \<leftarrow> [0..Dy (RGBA_Rect subimg) - 1]. \<Sum>nx \<leftarrow> [0..Dx (RGBA_Rect subimg) - 1].
        uint (pixel_diff img x y subimg nx ny))"
  by (simp add: spec_patchDissimilarity_def uint_pixel_diff Let_def)

lemma spec_bounds:
  assumes "0 \<le> Dx (RGBA_Rect subimg)" "0 \<le> Dy (RGBA_Rect subimg)"
  shows "0 \<le> spec_patchDissimilarity img x y subimg"
    and "spec_patchDissimilarity img x y subimg \<le> 765 * Dx (RGBA_Rect subimg) * Dy (RGBA_Rect subimg)"
proof -
  let ?w = "Dx (RGBA_Rect subimg)" and ?h = "Dy (RGBA_Rect subimg)"
  have row: "0 \<le> (\<Sum>nx \<leftarrow> [0..?w - 1]. uint (pixel_diff img x y subimg nx ny)) \<and>
             (\<Sum>nx \<leftarrow> [0..?w - 1]. uint (pixel_diff img x y subimg nx ny)) \<le> 765 * ?w" for ny
    using sum_list_bounds [of "[0..?w - 1]" "\<lambda>nx. uint (pixel_diff img x y subimg nx ny)" 765]
      uint_pixel_diff_le assms(1) by simp
  have "0 \<le> spec_patchDissimilarity img x y subimg \<and>
        spec_patchDissimilarity img x y subimg \<le> (765 * ?w) * int (length [0..?h - 1])"
    unfolding spec_as_pixel_diff
    by (rule sum_list_bounds) (rule row)
  then show "0 \<le> spec_patchDissimilarity img x y subimg"
    and "spec_patchDissimilarity img x y subimg \<le> 765 * ?w * ?h"
    using assms(2) by simp_all
qed

lemma sumOfAbsDiffRGBA_word_of_spec:
  assumes "wf_RGBA img" and "wf_RGBA subimg" and "patch_inside img x y subimg"
  shows "sumOfAbsDiffRGBA img x y subimg
           = Some (word_of_int (spec_patchDissimilarity img x y subimg))"
  unfolding sumOfAbsDiffRGBA_words [OF assms] spec_as_pixel_diff word_double_sum ..

text \<open>
  Claim C5, amended. For a haystack and a needle whose pixel buffers cover their bounds, and
  an offset \<open>(x, y)\<close> at which the needle lies within the haystack, \<open>sumOfAbsDiffRGBA\<close>
  returns (without a panic) the sum, over every needle pixel, of the absolute differences
  of the R, G and B bytes, reduced modulo \<open>2 ^ 32\<close>: the accumulator is a \<^verbatim>\<open>uint32\<close>. It
  is the exact integer whenever \<open>765 * needleWidth * needleHeight < 2 ^ 32\<close>.
\<close>

theorem sumOfAbsDiffRGBA_mod:
  assumes "wf_RGBA img" and "wf_RGBA subimg" and "patch_inside img x y subimg"
  shows "\<exists>s. sumOfAbsDiffRGBA img x y subimg = Some s \<and>
           uint s = spec_patchDissimilarity img x y subimg mod 2 ^ 32 \<and>
           (765 * Dx (RGBA_Rect subimg) * Dy (RGBA_Rect subimg) < 2 ^ 32 \<longrightarrow>
              uint s = spec_patchDissimilarity img x y subimg)"
proof -
  let ?spec = "spec_patchDissimilarity img x y subimg"
  have s: "sumOfAbsDiffRGBA img x y subimg = Some (word_of_int ?spec)"
    using assms by (rule sumOfAbsDiffRGBA_word_of_spec)
  have u: "uint (word_of_int ?spec :: u32) = ?spec mod 2 ^ 32"
    by (simp add: uint_word_of_int)
  have d: "0 \<le> Dx (RGBA_Rect subimg)" "0 \<le> Dy (RGBA_Rect subimg)"
    using assms(2) by (simp_all add: wf_RGBA_def)
  have "?spec mod 2 ^ 32 = ?spec"
    if "765 * Dx (RGBA_Rect subimg) * Dy (RGBA_Rect subimg) < 2 ^ 32"
    using spec_bounds [OF d, of img x y] that by (intro mod_pos_pos_trivial) linarith+
  with s u show ?thesis by simp
qed

lemma wf_uniform_RGBA: "0 \<le> w \<Longrightarrow> 0 \<le> h \<Longrightarrow> wf_RGBA (uniform_RGBA w h v)"
  by (simp add: wf_RGBA_def uniform_RGBA_def Rect_def Dx_def Dy_def algebra_simps)

lemma Rect_uniform [simp]:
  "0 \<le> w \<Longrightarrow> 0 \<le> h \<Longrightarrow>
     RGBA_Rect (uniform_RGBA w h v) = \<lparr>Min_p = \<lparr>X = 0, Y = 0\<rparr>, Max_p = \<lparr>X = w, Y = h\<rparr>\<rparr>"
  by (simp add: uniform_RGBA_def Rect_def)

lemma channel_uniform:
  assumes "0 \<le> w" "0 \<le> h" "0 \<le> px" "px < w" "0 \<le> py" "py < h" "c < 3"
  shows "channel (uniform_RGBA w h v) px py c = v"
proof -
  have "0 \<le> PixOffset (uniform_RGBA w h v) px py"
       "PixOffset (uniform_RGBA w h v) px py + 4 \<le> int (length (Pix (uniform_RGBA w h v)))"
    using pix_in_range [OF wf_uniform_RGBA [OF assms(1,2)], where px = px and py = py and v1 = v] assms by simp_all
  then have "nat (PixOffset (uniform_RGBA w h v) px py) + c < length (Pix (uniform_RGBA w h v))"
    using assms(7) by linarith
  then show ?thesis
    unfolding channel_def by (simp add: uniform_RGBA_def)
qed

lemma sum_list_const:
  fixes f :: "'a \<Rightarrow> int"
  assumes "\<And>x. x \<in> set xs \<Longrightarrow> f x = c"
  shows "sum_list (map f xs) = c * int (length xs)"
  using assms by (induction xs) (simp_all add: algebra_simps)

lemma spec_uniform:
  assumes "0 \<le> w" "0 \<le> h"
  shows "spec_patchDissimilarity (uniform_RGBA w h a) 0 0 (uniform_RGBA w h b)
           = 3 * \<bar>uint a - uint b\<bar> * w * h"
proof -
  have px: "(\<Sum>c \<leftarrow> [0, 1, 2]. \<bar>uint (channel (uniform_RGBA w h a) (0 + nx) (0 + ny) c)
            - uint (channel (uniform_RGBA w h b) (0 + nx) (0 + ny) c)\<bar>) = 3 * \<bar>uint a - uint b\<bar>"
    if "nx \<in> set [0..w - 1]" "ny \<in> set [0..h - 1]" for nx ny
    using that assms by (simp add: channel_uniform)
  have row: "(\<Sum>nx \<leftarrow> [0..w - 1]. \<Sum>c \<leftarrow> [0, 1, 2]. \<bar>uint (channel (uniform_RGBA w h a) (0 + nx) (0 + ny) c)
            - uint (channel (uniform_RGBA w h b) (0 + nx) (0 + ny) c)\<bar>) = 3 * \<bar>uint a - uint b\<bar> * w"
    if "ny \<in> set [0..h - 1]" for ny
    using sum_list_const [of "[0..w - 1]" _ "3 * \<bar>uint a - uint b\<bar>", OF px [OF _ that]] assms(1)
    by simp
  show ?thesis
    using sum_list_const [of "[0..h - 1]" _ "3 * \<bar>uint a - uint b\<bar> * w", OF row] assms
    by (simp add: spec_patchDissimilarity_def Let_def Dx_def Dy_def)
qed

text \<open>
  Claim C5, as stated, fails for large needles: for a white haystack and a black needle, both
  2400 by 2400 pixels, the exact sum is \<open>765 * 2400 * 2400 = 4406400000\<close>, above \<open>2 ^ 32\<close>,
  and the code returns \<open>4406400000 - 2 ^ 32 = 111432704\<close>.
\<close>

theorem sumOfAbsDiffRGBA_wraps:
  "sumOfAbsDiffRGBA (uniform_RGBA 2400 2400 255) 0 0 (uniform_RGBA 2400 2400 0) = Some 111432704 \<and>
   spec_patchDissimilarity (uniform_RGBA 2400 2400 255) 0 0 (uniform_RGBA 2400 2400 0) = 4406400000"
proof -
  have sp: "spec_patchDissimilarity (uniform_RGBA 2400 2400 255) 0 0 (uniform_RGBA 2400 2400 0) = 4406400000"
    using spec_uniform [of 2400 2400 255 0] by simp
  have "patch_inside (uniform_RGBA 2400 2400 255) 0 0 (uniform_RGBA 2400 2400 0)"
    by (simp add: patch_inside_def Dx_def Dy_def)
  then have "sumOfAbsDiffRGBA (uniform_RGBA 2400 2400 255) 0 0 (uniform_RGBA 2400 2400 0)
               = Some (word_of_int 4406400000)"
    using sumOfAbsDiffRGBA_word_of_spec [of "uniform_RGBA 2400 2400 255" "uniform_RGBA 2400 2400 0" 0 0]
      wf_uniform_RGBA [of 2400 2400] sp by simp
  moreover have "(word_of_int 4406400000 :: u32) = 111432704"
    by (simp add: word_eq_iff_unsigned [where ?'a = int] uint_word_of_int)
  ultimately show ?thesis using sp by simp
qed

theorem sumOfAbsDiffRGBA_mod_witness:
  "wf_RGBA \<lparr>Pix = [255, 255, 255, 255, 0, 0, 0, 255, 0, 0, 0, 255, 9, 8, 7, 255], Stride = 8,
             RGBA_Rect = Rect 0 0 2 2\<rparr> \<and>
   wf_RGBA (uniform_RGBA 1 1 3) \<and>
   patch_inside \<lparr>Pix = [255, 255, 255, 255, 0, 0, 0, 255, 0, 0, 0, 255, 9, 8, 7, 255], Stride = 8,
             RGBA_Rect = Rect 0 0 2 2\<rparr> 1 1 (uniform_RGBA 1 1 3) \<and>
   sumOfAbsDiffRGBA \<lparr>Pix = [255, 255, 255, 255, 0, 0, 0, 255, 0, 0, 0, 255, 9, 8, 7, 255], Stride = 8,
             RGBA_Rect = Rect 0 0 2 2\<rparr> 1 1 (uniform_RGBA 1 1 3) = Some 15 \<and>
   spec_patchDissimilarity \<lparr>Pix = [255, 255, 255, 255, 0, 0, 0, 255, 0, 0, 0, 255, 9, 8, 7, 255], Stride = 8,
             RGBA_Rect = Rect 0 0 2 2\<rparr> 1 1 (uniform_RGBA 1 1 3) = 15"
proof -
  let ?H = "\<lparr>Pix = [255, 255, 255, 255, 0, 0, 0, 255, 0, 0, 0, 255, 9, 8, 7, 255], Stride = 8,
             RGBA_Rect = Rect 0 0 2 2\<rparr>"
  have h: "wf_RGBA ?H" "wf_RGBA (uniform_RGBA 1 1 3)" "patch_inside ?H 1 1 (uniform_RGBA 1 1 3)"
    by (simp_all add: wf_RGBA_def patch_inside_def uniform_RGBA_def Rect_def Dx_def Dy_def)
  have sp: "spec_patchDissimilarity ?H 1 1 (uniform_RGBA 1 1 3) = 15"
    by (simp add: spec_patchDissimilarity_def uniform_RGBA_def Rect_def Dx_def Dy_def
          channel_def PixOffset_def)
  from sumOfAbsDiffRGBA_mod [OF h] obtain s where
    "sumOfAbsDiffRGBA ?H 1 1 (uniform_RGBA 1 1 3) = Some s"
    "765 * Dx (RGBA_Rect (uniform_RGBA 1 1 3)) * Dy (RGBA_Rect (uniform_RGBA 1 1 3)) < 2 ^ 32 \<longrightarrow>
       uint s = spec_patchDissimilarity ?H 1 1 (uniform_RGBA 1 1 3)"
    by blast
  then have "sumOfAbsDiffRGBA ?H 1 1 (uniform_RGBA 1 1 3) = Some s" "uint s = 15"
    using sp by (simp_all add: Dx_def Dy_def)
  then have "sumOfAbsDiffRGBA ?H 1 1 (uniform_RGBA 1 1 3) = Some 15"
    by (simp add: word_uint_eq_iff)
  with h sp show ?thesis by simp
qed

subsection \<open>The per-scale matcher\<close>

text \<open>
  The stable order is one a run can produce, and whatever the order the matcher returns,
  when it returns, exactly \<open>k\<close> matches (\<open>k\<close> raised to 1): the reslice pads what the workers sent.
\<close>

lemma pick_stable_valid: "valid_pick pick_stable"
  by (simp add: valid_pick_def pick_stable_def)

lemma length_reslice: "length (reslice ms k) = nat k"
  by (simp add: reslice_def)

lemma convolutionTopKParallel_length:
  assumes "convolutionTopKParallel pick numCPU img subimg k = Inr ms"
  shows "length ms = nat (if k < 1 then 1 else k)"
  using assms
  by (auto simp: convolutionTopKParallel_def Let_def length_reslice
           split: if_splits option.splits)

text \<open>
  Claim C1. When the needle does not fit, the matcher should return an empty list. The code
  does not: with a needle as wide and as high as the haystack (both 1 by 1) no offset is
  scanned, and \<^verbatim>\<open>matches[:k]\<close> then extends the empty slice to \<open>k\<close> zero-valued matches, which
  are normalised to the score 1; with a needle wider than the haystack (2 by 1 in 1 by 2)
  \<^verbatim>\<open>image.Rect\<close> swaps the bounds of the offset region, a worker scans the column \<open>x = -1\<close>
  and the slice expression in \<^verbatim>\<open>sumOfAbsDiffRGBA\<close> panics. (\<open>numCPU = 1\<close>; no match is
  collected, so the order \<open>pick\<close> plays no part.)
\<close>

theorem convolutionTopKParallel_needle_not_fitting:
  "convolutionTopKParallel pick_stable 1 (uniform_RGBA 1 1 0) (uniform_RGBA 1 1 0) 1
     = Inr [\<lparr>Bounds = \<lparr>Min_p = \<lparr>X = 0, Y = 0\<rparr>, Max_p = \<lparr>X = 0, Y = 0\<rparr>\<rparr>, Match = 1\<rparr>] \<and>
   convolutionTopKParallel pick_stable 1 (uniform_RGBA 1 2 0) (uniform_RGBA 2 1 0) 1 = Inl Panic"
  by (simp add: convolutionTopKParallel_def worker_def scan_region_def reslice_def pick_stable_def
        uniform_RGBA_def Rect_def Dx_def Dy_def zeroMatch_def Let_def upto.simps
        sumOfAbsDiffRGBA_def PixOffset_def slice3_def)

text \<open>
  Claim C2. The matcher returns at most \<open>k\<close> matches, but not only rectangles of the needle's
  size at valid offsets: a 1 by 1 needle has one valid offset in a 2 by 2 haystack, and with
  \<open>k = 2\<close> the second match returned is the zero value of the backing array, the
  degenerate rectangle (0,0)-(0,0), with the score 1.
\<close>

theorem convolutionTopKParallel_pads_degenerate:
  "convolutionTopKParallel pick_stable 1
      \<lparr>Pix = [0, 0, 0, 255, 0, 0, 0, 255, 0, 0, 0, 255, 0, 0, 0, 255], Stride = 8,
       RGBA_Rect = Rect 0 0 2 2\<rparr>
      (uniform_RGBA 1 1 0) 2
     = Inr [\<lparr>Bounds = Rect 0 0 1 1, Match = 1\<rparr>, \<lparr>Bounds = Rect 0 0 0 0, Match = 1\<rparr>] \<and>
   \<not> spec_valid_offset
       \<lparr>Pix = [0, 0, 0, 255, 0, 0, 0, 255, 0, 0, 0, 255, 0, 0, 0, 255], Stride = 8,
        RGBA_Rect = Rect 0 0 2 2\<rparr>
       (uniform_RGBA 1 1 0) (Rect 0 0 0 0) \<and>
   Dx (Rect 0 0 0 0) * Dy (Rect 0 0 0 0) = 0"
  by (simp add: convolutionTopKParallel_def worker_def scan_region_def reslice_def pick_stable_def
        uniform_RGBA_def Rect_def Dx_def Dy_def zeroMatch_def Let_def upto.simps
        sumOfAbsDiffRGBA_def PixOffset_def slice3_def rgbAbsSumSliceBitwise_def
        bitwiseAbsDiff_word topk_step_def spec_valid_offset_def)

text \<open>
  Claim C6. The score of a match retained by a scan is \<open>1 - rawSum * norm\<close>, but the matches
  that \<^verbatim>\<open>matches[:k]\<close> adds have the score 1 whatever their offset's raw sum: in a 2 by 2
  haystack whose pixel (0,0) is white, a black 1 by 1 needle has the raw sum 765 at the
  offset (0,0) (score 0, up to float64 rounding), and with \<open>k = 2\<close> the second match
  returned, at (0,0) too, has the score 1.
\<close>

theorem convolutionTopKParallel_padding_score:
  "convolutionTopKParallel pick_stable 1
      \<lparr>Pix = [255, 255, 255, 255, 0, 0, 0, 255, 0, 0, 0, 255, 0, 0, 0, 255], Stride = 8,
       RGBA_Rect = Rect 0 0 2 2\<rparr>
      (uniform_RGBA 1 1 0) 2
     = Inr [\<lparr>Bounds = Rect 0 0 1 1, Match = 0\<rparr>, \<lparr>Bounds = Rect 0 0 0 0, Match = 1\<rparr>] \<and>
   sumOfAbsDiffRGBA
      \<lparr>Pix = [255, 255, 255, 255, 0, 0, 0, 255, 0, 0, 0, 255, 0, 0, 0, 255], Stride = 8,
       RGBA_Rect = Rect 0 0 2 2\<rparr> 0 0 (uniform_RGBA 1 1 0) = Some 765 \<and>
   1 - real_of_int (uint (765 :: u32)) / real_of_int (1 * 1 * 255 * 3) \<noteq> 1"
  by (simp add: convolutionTopKParallel_def worker_def scan_region_def reslice_def pick_stable_def
        uniform_RGBA_def Rect_def Dx_def Dy_def zeroMatch_def Let_def upto.simps
        sumOfAbsDiffRGBA_def PixOffset_def slice3_def rgbAbsSumSliceBitwise_def
        bitwiseAbsDiff_word topk_step_def)

subsection \<open>The scale-pyramid search\<close>

















end
